theory Spec2Isabelle
  imports Main
begin

section \<open>The line verifier of the xctest checker\<close>

text \<open>
  This theory embeds \<^verbatim>\<open>Tests/Functional/xctest_checker/xctest_checker/compare.py\<close>:
  the two generators \<^verbatim>\<open>_actual_lines\<close> and \<^verbatim>\<open>_expected_lines\<close> and the function
  \<^verbatim>\<open>compare\<close>. The module is Python 2: it pairs the two generators with
  \<^verbatim>\<open>map(None, xs, ys)\<close>, which in Python 2 returns the \<^emph>\<open>list\<close> of all pairs, padded with
  \<^verbatim>\<open>None\<close> on the shorter side.

  \<^item> A Python 2 \<^verbatim>\<open>str\<close> is a byte string: \<^typ>\<open>string\<close>.
  \<^item> A file is its content; the file system is a partial map from paths to contents,
    so that \<^verbatim>\<open>open(path)\<close> of a missing file raises.
  \<^item> Every \<^verbatim>\<open>raise\<close> is a value \<open>Inl err\<close> of the result type; returning normally is
    \<open>Inr ()\<close>.
  \<^item> A generator is a resumable state; asking it for its next value returns the value
    (or \<open>None\<close> when it is exhausted) and the new state.
\<close>

subsection \<open>Errors, files and lines\<close>

abbreviation NL :: char where
  "NL \<equiv> CHR 0x0A"

text \<open>
  \<open>IOError\<close> is raised by \<^verbatim>\<open>open\<close>, \<open>AssertionError\<close> by \<^verbatim>\<open>compare\<close> with the given
  message, \<open>Re_error\<close> is \<^verbatim>\<open>re.error\<close>, raised by \<^verbatim>\<open>re.match\<close> for a pattern that does not
  compile. \<open>Unmodelled\<close> is no Python exception: the model of \<^verbatim>\<open>re.match\<close> below answers
  with it for a pattern whose syntax lies outside the fragment of regular expressions
  it covers.
\<close>

datatype error = IOError string | AssertionError string | Re_error | Unmodelled

type_synonym filesystem = "string \<Rightarrow> string option"

text \<open>
  The regular-expression engine, as \<^verbatim>\<open>compare\<close> uses it: \<open>m pattern line\<close> is
  \<open>Inr True\<close> when \<^verbatim>\<open>re.match(pattern, line)\<close> returns a match object, \<open>Inr False\<close> when it
  returns \<^verbatim>\<open>None\<close>, and \<open>Inl err\<close> when it raises.
\<close>

type_synonym matcher = "string \<Rightarrow> string \<Rightarrow> error + bool"

text \<open>
  \<^verbatim>\<open>for line in f\<close>: the lines of a file opened in text mode, each with its terminating
  newline; only the last line may lack one.
\<close>

fun file_lines :: "string \<Rightarrow> string list" where
  "file_lines [] = []"
| "file_lines (c # cs) =
     (if c = NL then [c] # file_lines cs
      else (case file_lines cs of
              [] \<Rightarrow> [[c]]
            | line # rest \<Rightarrow> (c # line) # rest))"

text \<open>\<^verbatim>\<open>line.startswith(check_prefix)\<close>.\<close>

definition startswith :: "string \<Rightarrow> string \<Rightarrow> bool" where
  "startswith line pre = (take (length pre) line = pre)"

subsection \<open>The generators\<close>

text \<open>
  A generator has not run yet (the file is opened at the first request), or is suspended
  at its \<^verbatim>\<open>yield\<close> with the lines of the file it has not read yet, or has finished.
\<close>

datatype gen = Unstarted | Suspended "string list" | Exhausted

text \<open>
  \<^verbatim>\<open>_actual_lines(path)\<close>:
  \<^verbatim>\<open>with open(path) as f: for line in f: yield line\<close>.
\<close>

fun actual_lines_resume :: "string list \<Rightarrow> (error + string option) \<times> gen" where
  "actual_lines_resume [] = (Inr None, Exhausted)"
| "actual_lines_resume (line # rest) = (Inr (Some line), Suspended rest)"

fun actual_lines_next :: "filesystem \<Rightarrow> string \<Rightarrow> gen \<Rightarrow> (error + string option) \<times> gen" where
  "actual_lines_next fs path Unstarted =
     (case fs path of
        None \<Rightarrow> (Inl (IOError path), Exhausted)
      | Some content \<Rightarrow> actual_lines_resume (file_lines content))"
| "actual_lines_next fs path (Suspended rest) = actual_lines_resume rest"
| "actual_lines_next fs path Exhausted = (Inr None, Exhausted)"

text \<open>
  \<^verbatim>\<open>_expected_lines(path, check_prefix)\<close>:
  \<^verbatim>\<open>for line in f: if line.startswith(check_prefix): yield line[len(check_prefix):]\<close>.
  A request reads lines until one starts with the prefix.
\<close>

fun expected_lines_resume :: "string \<Rightarrow> string list \<Rightarrow> (error + string option) \<times> gen" where
  "expected_lines_resume check_prefix [] = (Inr None, Exhausted)"
| "expected_lines_resume check_prefix (line # rest) =
     (if startswith line check_prefix
      then (Inr (Some (drop (length check_prefix) line)), Suspended rest)
      else expected_lines_resume check_prefix rest)"

fun expected_lines_next ::
  "filesystem \<Rightarrow> string \<Rightarrow> string \<Rightarrow> gen \<Rightarrow> (error + string option) \<times> gen" where
  "expected_lines_next fs path check_prefix Unstarted =
     (case fs path of
        None \<Rightarrow> (Inl (IOError path), Exhausted)
      | Some content \<Rightarrow> expected_lines_resume check_prefix (file_lines content))"
| "expected_lines_next fs path check_prefix (Suspended rest) =
     expected_lines_resume check_prefix rest"
| "expected_lines_next fs path check_prefix Exhausted = (Inr None, Exhausted)"

text \<open>
  The whole sequence \<^verbatim>\<open>_expected_lines\<close> yields over the lines of a file, as a list: the
  lines that start with the prefix, in file order, each without the prefix.
\<close>

fun expected_lines :: "string list \<Rightarrow> string \<Rightarrow> string list" where
  "expected_lines [] check_prefix = []"
| "expected_lines (line # rest) check_prefix =
     (if startswith line check_prefix
      then drop (length check_prefix) line # expected_lines rest check_prefix
      else expected_lines rest check_prefix)"

text \<open>The lines of its file a generator has not read yet.\<close>

definition unread_lines :: "filesystem \<Rightarrow> string \<Rightarrow> gen \<Rightarrow> string list" where
  "unread_lines fs path g =
     (case g of
        Unstarted \<Rightarrow> (case fs path of None \<Rightarrow> [] | Some content \<Rightarrow> file_lines content)
      | Suspended rest \<Rightarrow> rest
      | Exhausted \<Rightarrow> [])"

definition gen_measure :: "filesystem \<Rightarrow> string \<Rightarrow> gen \<Rightarrow> nat" where
  "gen_measure fs path g =
     (case g of
        Unstarted \<Rightarrow> length (unread_lines fs path g) + 2
      | Suspended rest \<Rightarrow> length rest + 1
      | Exhausted \<Rightarrow> 0)"

subsection \<open>Pairing the generators: Python 2's \<^verbatim>\<open>map(None, xs, ys)\<close>\<close>

text \<open>
  \<^verbatim>\<open>map(None, _actual_lines(actual), _expected_lines(expected, check_prefix))\<close>. Python 2's
  \<^verbatim>\<open>map\<close> builds a list: in each round it asks every iterator for its next value, first
  the actual lines, then the expected ones, with \<^verbatim>\<open>None\<close> for an exhausted iterator, and
  it stops at the round in which all are exhausted. It returns the pairs and leaves the
  generators in their final states. An exception of a generator ends it.
\<close>

function map_None ::
  "filesystem \<Rightarrow> string \<Rightarrow> string \<Rightarrow> string \<Rightarrow> gen \<Rightarrow> gen \<Rightarrow>
     (error + (string option \<times> string option) list) \<times> gen \<times> gen" where
  "map_None fs actual expected check_prefix ga ge =
     (case actual_lines_next fs actual ga of
        (Inl err, ga') \<Rightarrow> (Inl err, ga', ge)
      | (Inr a, ga') \<Rightarrow>
          (case expected_lines_next fs expected check_prefix ge of
             (Inl err, ge') \<Rightarrow> (Inl err, ga', ge')
           | (Inr e, ge') \<Rightarrow>
               if a = None \<and> e = None then (Inr [], ga', ge')
               else (case map_None fs actual expected check_prefix ga' ge' of
                       (Inl err, s) \<Rightarrow> (Inl err, s)
                     | (Inr rest, s) \<Rightarrow> (Inr ((a, e) # rest), s))))"
  by pat_completeness auto
termination
proof (relation "measure (\<lambda>(fs, actual, expected, check_prefix, ga, ge).
                   gen_measure fs actual ga + gen_measure fs expected ge)", goal_cases)
  case 1
  show ?case by simp
next
  case (2 fs actual expected check_prefix ga ge x ga' a y ge' e)
  from 2 have eqa: "actual_lines_next fs actual ga = (Inr a, ga')"
    and eqe: "expected_lines_next fs expected check_prefix ge = (Inr e, ge')"
    and ne: "a \<noteq> None \<or> e \<noteq> None"
    by auto
  have resume_a: "gen_measure fs actual g \<le> length ls"
    if "actual_lines_resume ls = (r, g)" for ls r g
    using that by (cases ls) (auto simp: gen_measure_def)
  have resume_e: "gen_measure fs expected g \<le> length ls"
    if "expected_lines_resume check_prefix ls = (r, g)" for ls r g
    using that
  proof (induction ls)
    case Nil
    then show ?case by (auto simp: gen_measure_def)
  next
    case (Cons l ls)
    then show ?case by (auto simp: gen_measure_def split: if_splits)
  qed
  have step_a: "gen_measure fs actual ga' < gen_measure fs actual ga \<or> (a = None \<and> ga' = ga)"
  proof (cases ga)
    case Unstarted
    with eqa show ?thesis
      by (cases "fs actual") (auto simp: gen_measure_def unread_lines_def dest!: resume_a)
  next
    case (Suspended ls)
    with eqa resume_a [of ls "Inr a" ga'] show ?thesis
      by (simp add: gen_measure_def)
  next
    case Exhausted
    with eqa show ?thesis by auto
  qed
  have step_e:
    "gen_measure fs expected ge' < gen_measure fs expected ge \<or> (e = None \<and> ge' = ge)"
  proof (cases ge)
    case Unstarted
    with eqe show ?thesis
      by (cases "fs expected") (auto simp: gen_measure_def unread_lines_def dest!: resume_e)
  next
    case (Suspended ls)
    with eqe resume_e [of ls "Inr e" ge'] show ?thesis
      by (simp add: gen_measure_def)
  next
    case Exhausted
    with eqe show ?thesis by auto
  qed
  from ne step_a step_e show ?case by auto
qed

text \<open>What \<^verbatim>\<open>map(None, xs, ys)\<close> returns for two lists.\<close>

fun zip_longest :: "'a list \<Rightarrow> 'b list \<Rightarrow> ('a option \<times> 'b option) list" where
  "zip_longest [] [] = []"
| "zip_longest (x # xs) [] = (Some x, None) # zip_longest xs []"
| "zip_longest [] (y # ys) = (None, Some y) # zip_longest [] ys"
| "zip_longest (x # xs) (y # ys) = (Some x, Some y) # zip_longest xs ys"

subsection \<open>The messages\<close>

text \<open>
  \<^verbatim>\<open>repr\<close> of a Python 2 \<^verbatim>\<open>str\<close>: in single quotes, or in double quotes when the string
  has a single quote and no double quote; the quote and the backslash are escaped, tab,
  newline and carriage return are written \<^verbatim>\<open>\t\<close>, \<^verbatim>\<open>\n\<close>, \<^verbatim>\<open>\r\<close>, and every other byte
  below \<^verbatim>\<open>0x20\<close> or from \<^verbatim>\<open>0x7f\<close> on as \<^verbatim>\<open>\xhh\<close>.
\<close>

definition hexdigit :: "nat \<Rightarrow> char" where
  "hexdigit n = ''0123456789abcdef'' ! n"

definition repr_char :: "char \<Rightarrow> char \<Rightarrow> string" where
  "repr_char quote c =
     (if c = quote \<or> c = CHR 0x5C then [CHR 0x5C, c]
      else if c = CHR 0x09 then [CHR 0x5C, CHR ''t'']
      else if c = NL then [CHR 0x5C, CHR ''n'']
      else if c = CHR 0x0D then [CHR 0x5C, CHR ''r'']
      else if (of_char c :: nat) < 32 \<or> 127 \<le> (of_char c :: nat)
        then [CHR 0x5C, CHR ''x'', hexdigit (of_char c div 16), hexdigit (of_char c mod 16)]
      else [c])"

definition repr :: "string \<Rightarrow> string" where
  "repr s =
     (let quote = (if CHR 0x27 \<in> set s \<and> CHR 0x22 \<notin> set s then CHR 0x22 else CHR 0x27)
      in [quote] @ concat (map (repr_char quote) s) @ [quote])"

definition more_expected :: string where
  "more_expected =
     ''There were more lines expected to appear '' @
     ''than there were lines in the actual input.''"

definition more_actual :: string where
  "more_actual = ''There were more lines than expected to '' @ ''appear.''"

definition did_not_match :: "string \<Rightarrow> string \<Rightarrow> string" where
  "did_not_match actual_line expected_line =
     ''Actual line did not match the expected '' @ ''regular expression.'' @ [NL] @
     ''Actual: '' @ repr actual_line @ [NL] @
     ''Expected: '' @ repr expected_line @ [NL]"

subsection \<open>\<^verbatim>\<open>compare\<close>\<close>

text \<open>
  The body of the \<^verbatim>\<open>for\<close> loop of \<^verbatim>\<open>compare\<close>, over the list of pairs, with the three
  checks in the source's order.
\<close>

fun compare_loop :: "matcher \<Rightarrow> (string option \<times> string option) list \<Rightarrow> error + unit" where
  "compare_loop m [] = Inr ()"
| "compare_loop m ((actual_line, expected_line) # rest) =
     (case actual_line of
        None \<Rightarrow> Inl (AssertionError more_expected)
      | Some a \<Rightarrow>
          (case expected_line of
             None \<Rightarrow> Inl (AssertionError more_actual)
           | Some e \<Rightarrow>
               (case m e a of
                  Inl err \<Rightarrow> Inl err
                | Inr matched \<Rightarrow>
                    if \<not> matched then Inl (AssertionError (did_not_match a e))
                    else compare_loop m rest)))"

text \<open>
  \<^verbatim>\<open>compare(actual, expected, check_prefix)\<close> with the engine \<open>m\<close> for \<^verbatim>\<open>re.match\<close>:
  \<open>compare_run\<close> also returns the final states of the two generators, \<open>compare_with\<close>
  only what the call returns or raises.
\<close>

definition compare_run ::
  "matcher \<Rightarrow> filesystem \<Rightarrow> string \<Rightarrow> string \<Rightarrow> string \<Rightarrow> (error + unit) \<times> gen \<times> gen" where
  "compare_run m fs actual expected check_prefix =
     (case map_None fs actual expected check_prefix Unstarted Unstarted of
        (Inl err, gens) \<Rightarrow> (Inl err, gens)
      | (Inr pairs, gens) \<Rightarrow> (compare_loop m pairs, gens))"

definition compare_with ::
  "matcher \<Rightarrow> filesystem \<Rightarrow> string \<Rightarrow> string \<Rightarrow> string \<Rightarrow> error + unit" where
  "compare_with m fs actual expected check_prefix =
     fst (compare_run m fs actual expected check_prefix)"

subsection \<open>A fragment of \<^verbatim>\<open>re.match\<close>\<close>

text \<open>
  \<^verbatim>\<open>re.match(pattern, string)\<close> compiles the pattern and tries to match it at the
  beginning of the string. The model covers the patterns built from
  \<^item> ordinary characters, which match themselves;
  \<^item> \<^verbatim>\<open>.\<close>, which matches every character but a newline (no flag is given);
  \<^item> a backslash followed by a character that is no letter and no digit, which matches
    that character; the classes \<^verbatim>\<open>\d \D \s \S \w \W\<close> (of ASCII, as for a \<^verbatim>\<open>str\<close> without
    flags) and the control characters \<^verbatim>\<open>\a \f \n \r \t \v\<close>;
  \<^item> \<^verbatim>\<open>?\<close>, \<^verbatim>\<open>*\<close> and \<^verbatim>\<open>+\<close> after one of these, greedy or, with a further \<^verbatim>\<open>?\<close>, lazy
    (which changes the match found, not whether there is one);
  \<^item> \<^verbatim>\<open>|\<close> between alternatives;
  \<^item> \<^verbatim>\<open>$\<close>, which (no flag is given) matches at the end of the string and just before a
    newline that is the last character of the string, and takes no character.

  A repetition with nothing to repeat (also one of \<^verbatim>\<open>$\<close>), a repetition of a repetition
  and a backslash at the end of the pattern raise \<^verbatim>\<open>re.error\<close>. Groups, character sets,
  \<^verbatim>\<open>{m,n}\<close>, the anchor \<^verbatim>\<open>^\<close> and the other escapes are outside the fragment: the parser stops with
  \<open>Unmodelled\<close> at the first character of such a construct. CPython's limits on the size
  of a compiled pattern are not modelled.
\<close>

datatype category = DIGIT | NOT_DIGIT | SPACE | NOT_SPACE | WORD | NOT_WORD

datatype opcode = LITERAL char | ANY | CATEGORY category | AT_END

datatype repeat = Once | Optional | Star | Plus

type_synonym item = "opcode \<times> repeat"

definition is_digit :: "char \<Rightarrow> bool" where
  "is_digit c = (48 \<le> (of_char c :: nat) \<and> (of_char c :: nat) \<le> 57)"

definition is_alpha :: "char \<Rightarrow> bool" where
  "is_alpha c =
     ((65 \<le> (of_char c :: nat) \<and> (of_char c :: nat) \<le> 90) \<or>
      (97 \<le> (of_char c :: nat) \<and> (of_char c :: nat) \<le> 122))"

definition is_space :: "char \<Rightarrow> bool" where
  "is_space c = (c = CHR 0x20 \<or> (9 \<le> (of_char c :: nat) \<and> (of_char c :: nat) \<le> 13))"

definition is_word :: "char \<Rightarrow> bool" where
  "is_word c = (is_digit c \<or> is_alpha c \<or> c = CHR ''_'')"

fun category_match :: "category \<Rightarrow> char \<Rightarrow> bool" where
  "category_match DIGIT c = is_digit c"
| "category_match NOT_DIGIT c = (\<not> is_digit c)"
| "category_match SPACE c = is_space c"
| "category_match NOT_SPACE c = (\<not> is_space c)"
| "category_match WORD c = is_word c"
| "category_match NOT_WORD c = (\<not> is_word c)"

fun op_match :: "opcode \<Rightarrow> char \<Rightarrow> bool" where
  "op_match (LITERAL l) c = (c = l)"
| "op_match ANY c = (c \<noteq> NL)"
| "op_match (CATEGORY k) c = category_match k c"
| "op_match AT_END c = False"

text \<open>
  The parser reads the pattern from left to right. Its state holds the alternatives
  completed so far and the items of the current one (both latest first), and whether the
  last character was a backslash (\<open>Escaped\<close>) or a repetition operator (\<open>Repeated\<close>: a
  \<^verbatim>\<open>?\<close> that follows makes it lazy).
\<close>

datatype mode = Plain | Escaped | Repeated

datatype pstate = Building "item list list" "item list" mode | Stopped error

definition escape :: "char \<Rightarrow> error + opcode" where
  "escape c =
     (if c = CHR ''d'' then Inr (CATEGORY DIGIT)
      else if c = CHR ''D'' then Inr (CATEGORY NOT_DIGIT)
      else if c = CHR ''s'' then Inr (CATEGORY SPACE)
      else if c = CHR ''S'' then Inr (CATEGORY NOT_SPACE)
      else if c = CHR ''w'' then Inr (CATEGORY WORD)
      else if c = CHR ''W'' then Inr (CATEGORY NOT_WORD)
      else if c = CHR ''a'' then Inr (LITERAL (CHR 0x07))
      else if c = CHR ''f'' then Inr (LITERAL (CHR 0x0C))
      else if c = CHR ''n'' then Inr (LITERAL NL)
      else if c = CHR ''r'' then Inr (LITERAL (CHR 0x0D))
      else if c = CHR ''t'' then Inr (LITERAL (CHR 0x09))
      else if c = CHR ''v'' then Inr (LITERAL (CHR 0x0B))
      else if is_digit c \<or> is_alpha c then Inl Unmodelled
      else Inr (LITERAL c))"

definition repeat_of :: "char \<Rightarrow> repeat" where
  "repeat_of c = (if c = CHR ''?'' then Optional else if c = CHR ''*'' then Star else Plus)"

fun parse_char :: "char \<Rightarrow> pstate \<Rightarrow> pstate" where
  "parse_char c (Stopped err) = Stopped err"
| "parse_char c (Building branches items Escaped) =
     (case escape c of
        Inl err \<Rightarrow> Stopped err
      | Inr code \<Rightarrow> Building branches ((code, Once) # items) Plain)"
| "parse_char c (Building branches items m) =
     (if m = Repeated \<and> c = CHR ''?'' then Building branches items Plain
      else if c = CHR 0x5C then Building branches items Escaped
      else if c = CHR ''|'' then Building (items # branches) [] Plain
      else if c = CHR ''.'' then Building branches ((ANY, Once) # items) Plain
      else if c \<in> set ''*+?'' then
        (case items of
           [] \<Rightarrow> Stopped Re_error
         | (code, r) # before \<Rightarrow>
             if code = AT_END \<or> r \<noteq> Once then Stopped Re_error
             else Building branches ((code, repeat_of c) # before) Repeated)
      else if c = CHR ''$'' then Building branches ((AT_END, Once) # items) Plain
      else if c \<in> set ''[{()^'' then Stopped Unmodelled
      else Building branches ((LITERAL c, Once) # items) Plain)"

fun parse_end :: "pstate \<Rightarrow> error + item list list" where
  "parse_end (Stopped err) = Inl err"
| "parse_end (Building branches items Escaped) = Inl Re_error"
| "parse_end (Building branches items m) = Inr (rev (map rev (items # branches)))"

definition sre_parse :: "string \<Rightarrow> error + item list list" where
  "sre_parse pattern = parse_end (fold parse_char pattern (Building [] [] Plain))"

text \<open>
  Matching the items of one alternative at the beginning of a string, by backtracking:
  a repetition first takes a character and, should the rest fail, goes on without it;
  the end anchor looks at what is left of the string and takes nothing. When the items
  are used up the match has succeeded, whatever is left of the string.
\<close>

fun match_items :: "item list \<Rightarrow> string \<Rightarrow> bool" where
  "match_items [] s = True"
| "match_items ((code, Once) # items) s =
     (if code = AT_END then (s = [] \<or> s = [NL]) \<and> match_items items s
      else (case s of [] \<Rightarrow> False | c # cs \<Rightarrow> op_match code c \<and> match_items items cs))"
| "match_items ((code, Optional) # items) s =
     ((case s of [] \<Rightarrow> False | c # cs \<Rightarrow> op_match code c \<and> match_items items cs)
      \<or> match_items items s)"
| "match_items ((code, Star) # items) s =
     ((case s of [] \<Rightarrow> False
       | c # cs \<Rightarrow> op_match code c \<and> match_items ((code, Star) # items) cs)
      \<or> match_items items s)"
| "match_items ((code, Plus) # items) s =
     (case s of [] \<Rightarrow> False
      | c # cs \<Rightarrow> op_match code c \<and> match_items ((code, Star) # items) cs)"

definition re_match :: matcher where
  "re_match pattern s =
     (case sre_parse pattern of
        Inl err \<Rightarrow> Inl err
      | Inr branches \<Rightarrow> Inr (list_ex (\<lambda>items. match_items items s) branches))"

text \<open>\<^verbatim>\<open>compare\<close> with this engine.\<close>

definition compare :: "filesystem \<Rightarrow> string \<Rightarrow> string \<Rightarrow> string \<Rightarrow> error + unit" where
  "compare = compare_with re_match"

text \<open>
  The strings the items of an alternative match in full, the string ending where the
  match ends: the reference the engine is measured against.
\<close>

inductive fullmatch :: "item list \<Rightarrow> string \<Rightarrow> bool" where
  fm_Nil: "fullmatch [] []"
| fm_Once: "op_match code c \<Longrightarrow> fullmatch items s \<Longrightarrow> fullmatch ((code, Once) # items) (c # s)"
| fm_Optional_skip: "fullmatch items s \<Longrightarrow> fullmatch ((code, Optional) # items) s"
| fm_Optional_take:
    "op_match code c \<Longrightarrow> fullmatch items s \<Longrightarrow> fullmatch ((code, Optional) # items) (c # s)"
| fm_Star_skip: "fullmatch items s \<Longrightarrow> fullmatch ((code, Star) # items) s"
| fm_Star_take:
    "op_match code c \<Longrightarrow> fullmatch ((code, Star) # items) s \<Longrightarrow>
     fullmatch ((code, Star) # items) (c # s)"
| fm_Plus:
    "op_match code c \<Longrightarrow> fullmatch ((code, Star) # items) s \<Longrightarrow>
     fullmatch ((code, Plus) # items) (c # s)"
| fm_At_end: "fullmatch items [] \<Longrightarrow> fullmatch ((AT_END, Once) # items) []"
| fm_At_end_newline: "fullmatch items [NL] \<Longrightarrow> fullmatch ((AT_END, Once) # items) [NL]"

code_pred fullmatch .


subsection \<open>Example inputs\<close>

text \<open>A file system with small output and expectation files, for evaluating the model.\<close>

definition example_fs :: filesystem where
  "example_fs =
     [''pass.out'' \<mapsto> ''hello'' @ [NL] @ ''world'' @ [NL],
      ''pass.exp'' \<mapsto> ''#hel+o'' @ [NL] @ ''let x = 1'' @ [NL] @ ''#w.rld'' @ [NL],
      ''bare.pass.exp'' \<mapsto> ''#hel+o'' @ [NL] @ ''#w.rld'' @ [NL],
      ''second.out'' \<mapsto> ''foo'' @ [NL] @ ''bar'' @ [NL],
      ''second.exp'' \<mapsto> ''#foo'' @ [NL] @ ''#baz'' @ [NL],
      ''star.out'' \<mapsto> ''a'' @ [NL] @ ''b'' @ [NL],
      ''star.exp'' \<mapsto> ''#*'' @ [NL] @ ''#c'' @ [NL],
      ''short.out'' \<mapsto> ''hello'' @ [NL],
      ''short.exp'' \<mapsto> ''#hello'' @ [NL] @ ''#extra'' @ [NL],
      ''long.out'' \<mapsto> ''hello'' @ [NL] @ ''goodbye'' @ [NL],
      ''long.exp'' \<mapsto> ''#hello'' @ [NL],
      ''bar.exp'' \<mapsto> ''#bar'' @ [NL] @ ''#baz'' @ [NL],
      ''bare.exp'' \<mapsto> ''#'',
      ''marker.exp'' \<mapsto> ''#'' @ [NL],
      ''world.out'' \<mapsto> ''hello world'' @ [NL],
      ''plain.exp'' \<mapsto> ''hel+o'' @ [NL] @ ''w.rld'' @ [NL],
      ''a.out'' \<mapsto> ''a'',
      ''alt.exp'' \<mapsto> ''#a|b'' @ [NL]]"

section \<open>Lemmas\<close>

subsection \<open>Lines of a file\<close>

lemma file_lines_concat: "concat (file_lines s) = s"
  by (induction s) (auto split: list.splits)

lemma file_lines_nonempty: "line \<in> set (file_lines s) \<Longrightarrow> line \<noteq> []"
  by (induction s arbitrary: line) (auto split: list.splits if_splits)

lemma file_lines_newline_last: "line \<in> set (file_lines s) \<Longrightarrow> NL \<notin> set (butlast line)"
  by (induction s arbitrary: line) (auto split: list.splits if_splits)

lemma file_lines_terminated: "line \<in> set (butlast (file_lines s)) \<Longrightarrow> last line = NL"
proof (induction s arbitrary: line)
  case Nil
  then show ?case by simp
next
  case (Cons c cs)
  show ?case
  proof (cases "c = NL")
    case True
    with Cons show ?thesis by (auto split: if_splits)
  next
    case False
    show ?thesis
    proof (cases "file_lines cs")
      case Nil
      with False Cons.prems show ?thesis by simp
    next
      case (Cons l ls)
      have "l \<noteq> []"
        using file_lines_nonempty [of l cs] Cons by simp
      with False Cons Cons.prems Cons.IH show ?thesis
        by (auto split: if_splits)
    qed
  qed
qed

subsection \<open>The generators yield the lines, and \<open>map_None\<close> pairs them all\<close>

declare map_None.simps [simp del]

lemma expected_lines_resume_rest:
  "expected_lines_resume cp ls = (Inr (Some p), g) \<Longrightarrow>
   \<exists>rest. g = Suspended rest \<and> expected_lines ls cp = p # expected_lines rest cp"
  by (induction ls) (auto split: if_splits)

lemma expected_lines_resume_None:
  "expected_lines_resume cp ls = (Inr None, g) \<Longrightarrow> g = Exhausted \<and> expected_lines ls cp = []"
  by (induction ls) (auto split: if_splits)

lemma expected_lines_resume_Inr: "\<exists>r g. expected_lines_resume cp ls = (Inr r, g)"
  by (induction ls) auto

lemma unread_lines_simps [simp]:
  "unread_lines fs path (Suspended rest) = rest"
  "unread_lines fs path Exhausted = []"
  "fs path = Some content \<Longrightarrow> unread_lines fs path Unstarted = file_lines content"
  by (simp_all add: unread_lines_def)

lemma actual_lines_next_started:
  "ga = Unstarted \<longrightarrow> fs actual \<noteq> None \<Longrightarrow>
   actual_lines_next fs actual ga = actual_lines_resume (unread_lines fs actual ga)"
  by (cases ga) (auto simp: unread_lines_def)

lemma expected_lines_next_started:
  "ge = Unstarted \<longrightarrow> fs expected \<noteq> None \<Longrightarrow>
   expected_lines_next fs expected cp ge = expected_lines_resume cp (unread_lines fs expected ge)"
  by (cases ge) (auto simp: unread_lines_def)

lemma map_None_started:
  "(ga = Unstarted \<longrightarrow> fs actual \<noteq> None) \<Longrightarrow> (ge = Unstarted \<longrightarrow> fs expected \<noteq> None) \<Longrightarrow>
   map_None fs actual expected cp ga ge =
     (Inr (zip_longest (unread_lines fs actual ga)
             (expected_lines (unread_lines fs expected ge) cp)),
      Exhausted, Exhausted)"
proof (induction fs actual expected cp ga ge rule: map_None.induct)
  case (1 fs actual expected cp ga ge)
  let ?A = "unread_lines fs actual ga"
  let ?E = "unread_lines fs expected ge"
  have na: "actual_lines_next fs actual ga = actual_lines_resume ?A"
    using 1(2) by (rule actual_lines_next_started)
  have ne: "expected_lines_next fs expected cp ge = expected_lines_resume cp ?E"
    using 1(3) by (rule expected_lines_next_started)
  obtain e ge' where re: "expected_lines_resume cp ?E = (Inr e, ge')"
    using expected_lines_resume_Inr by blast
  have gex: "ge' = Exhausted" if "e = None"
    using that re expected_lines_resume_None [of cp ?E ge'] by simp
  have ge': "ge' \<noteq> Unstarted"
    and E: "expected_lines ?E cp =
              (case e of
                 None \<Rightarrow> []
               | Some p \<Rightarrow> p # expected_lines (unread_lines fs expected ge') cp)"
    using re expected_lines_resume_None [of cp ?E ge']
      expected_lines_resume_rest [of cp ?E _ ge']
    by (cases e; auto simp: unread_lines_def)+
  show ?case
  proof (cases ?A)
    case Nil
    then have ra: "actual_lines_resume ?A = (Inr None, Exhausted)" by simp
    show ?thesis
    proof (cases e)
      case None
      with ra re na ne Nil E show ?thesis
        using expected_lines_resume_None [of cp ?E ge']
        by (subst map_None.simps) simp
    next
      case (Some p)
      have "map_None fs actual expected cp Exhausted ge' =
              (Inr (zip_longest (unread_lines fs actual Exhausted)
                      (expected_lines (unread_lines fs expected ge') cp)),
               Exhausted, Exhausted)"
        using ge' Some na ne ra re
        by (intro "1.IH" [of "Inr None" Exhausted None "Inr e" ge' e]) auto
      with Some ra re na ne Nil E show ?thesis
        by (subst map_None.simps) simp
    qed
  next
    case (Cons x xs)
    then have ra: "actual_lines_resume ?A = (Inr (Some x), Suspended xs)" by simp
    have "map_None fs actual expected cp (Suspended xs) ge' =
              (Inr (zip_longest (unread_lines fs actual (Suspended xs))
                      (expected_lines (unread_lines fs expected ge') cp)),
               Exhausted, Exhausted)"
      using ge' na ne ra re
      by (intro "1.IH" [of "Inr (Some x)" "Suspended xs" "Some x" "Inr e" ge' e]) auto
    with ra re na ne Cons E gex show ?thesis
      by (subst map_None.simps) (cases e; simp)
  qed
qed

lemma compare_run_eq:
  assumes "fs actual = Some ca" and "fs expected = Some ce"
  shows "compare_run m fs actual expected cp =
           (compare_loop m (zip_longest (file_lines ca) (expected_lines (file_lines ce) cp)),
            Exhausted, Exhausted)"
  using assms map_None_started [of Unstarted fs actual Unstarted expected cp]
  by (simp add: compare_run_def)

lemma compare_with_eq:
  assumes "fs actual = Some ca" and "fs expected = Some ce"
  shows "compare_with m fs actual expected cp =
           compare_loop m (zip_longest (file_lines ca) (expected_lines (file_lines ce) cp))"
  using compare_run_eq [OF assms] by (simp add: compare_with_def)

subsection \<open>The loop over the pairs\<close>

lemma compare_loop_skip:
  "n \<le> length as \<Longrightarrow> n \<le> length ps \<Longrightarrow> (\<forall>i<n. m (ps ! i) (as ! i) = Inr True) \<Longrightarrow>
   compare_loop m (zip_longest as ps) = compare_loop m (zip_longest (drop n as) (drop n ps))"
proof (induction n arbitrary: as ps)
  case 0
  then show ?case by simp
next
  case (Suc n)
  from Suc.prems obtain a as' p ps' where eq: "as = a # as'" "ps = p # ps'"
    by (cases as; cases ps) auto
  from Suc.prems(3) eq have first: "m p a = Inr True" by auto
  from Suc.prems(3) eq have rest: "\<forall>i<n. m (ps' ! i) (as' ! i) = Inr True" by auto
  from Suc.prems eq have "n \<le> length as'" "n \<le> length ps'" by auto
  from Suc.IH [OF this rest] eq first show ?case by simp
qed

lemma compare_loop_more_actual:
  "as \<noteq> [] \<Longrightarrow> compare_loop m (zip_longest as []) = Inl (AssertionError more_actual)"
  by (cases as) auto

lemma compare_loop_more_expected:
  "ps \<noteq> [] \<Longrightarrow> compare_loop m (zip_longest [] ps) = Inl (AssertionError more_expected)"
  by (cases ps) auto

lemma compare_loop_at:
  assumes "i < length as" and "i < length ps"
    and "\<forall>j<i. m (ps ! j) (as ! j) = Inr True"
  shows "compare_loop m (zip_longest as ps) =
           (case m (ps ! i) (as ! i) of
              Inl err \<Rightarrow> Inl err
            | Inr matched \<Rightarrow>
                if \<not> matched then Inl (AssertionError (did_not_match (as ! i) (ps ! i)))
                else compare_loop m (zip_longest (drop (Suc i) as) (drop (Suc i) ps)))"
proof -
  have "compare_loop m (zip_longest as ps) = compare_loop m (zip_longest (drop i as) (drop i ps))"
    using assms by (intro compare_loop_skip) auto
  also have "drop i as = as ! i # drop (Suc i) as"
    using assms(1) by (simp add: Cons_nth_drop_Suc)
  also have "drop i ps = ps ! i # drop (Suc i) ps"
    using assms(2) by (simp add: Cons_nth_drop_Suc)
  finally show ?thesis by simp
qed

lemma compare_loop_length_differs:
  "length as \<noteq> length ps \<Longrightarrow> compare_loop m (zip_longest as ps) \<noteq> Inr ()"
  by (induction as ps rule: zip_longest.induct) (auto split: sum.splits)

lemma compare_loop_stops:
  "compare_loop m pairs = Inl err \<Longrightarrow> compare_loop m (pairs @ later) = Inl err"
  by (induction m pairs rule: compare_loop.induct)
    (auto split: option.splits sum.splits if_splits)

subsection \<open>Selecting the annotated lines\<close>

lemma startswith_iff: "startswith line pre \<longleftrightarrow> (\<exists>rest. line = pre @ rest)"
proof
  assume "startswith line pre"
  then have "line = pre @ drop (length pre) line"
    by (metis append_take_drop_id startswith_def)
  then show "\<exists>rest. line = pre @ rest" ..
next
  assume "\<exists>rest. line = pre @ rest"
  then show "startswith line pre" by (auto simp: startswith_def)
qed

lemma expected_lines_append:
  "expected_lines (xs @ ys) cp = expected_lines xs cp @ expected_lines ys cp"
  by (induction xs) auto

subsection \<open>The engine matches prefixes\<close>

lemma match_items_fullmatch_prefix:
  "match_items items s \<Longrightarrow> \<exists>n. fullmatch items (take n s)"
proof (induction items s rule: match_items.induct)
  case (1 s)
  have "fullmatch [] (take 0 s)" by (simp add: fm_Nil)
  then show ?case by blast
next
  case (2 code items s)
  show ?case
  proof (cases "code = AT_END")
    case True
    with 2(3) have e: "s = [] \<or> s = [NL]" and m: "match_items items s" by auto
    from 2(1) [OF True m] obtain n where n: "fullmatch items (take n s)" by blast
    from e have "take n s = [] \<or> take n s = [NL]" by (cases n) auto
    with n True have "fullmatch ((code, Once) # items) (take n s)"
      by (auto intro: fm_At_end fm_At_end_newline)
    then show ?thesis by blast
  next
    case False
    with 2(3) obtain c cs where s: "s = c # cs" and c: "op_match code c"
      and m: "match_items items cs"
      by (cases s) auto
    from 2(2) [OF False s] m obtain n where "fullmatch items (take n cs)" by blast
    with c have "fullmatch ((code, Once) # items) (take (Suc n) s)"
      by (simp add: s fm_Once)
    then show ?thesis by blast
  qed
next
  case (3 code items s)
  show ?case
  proof (cases "match_items items s")
    case True
    with 3(2) obtain n where "fullmatch items (take n s)" by blast
    then have "fullmatch ((code, Optional) # items) (take n s)" by (rule fm_Optional_skip)
    then show ?thesis by blast
  next
    case False
    with 3(3) obtain c cs where s: "s = c # cs" and c: "op_match code c"
      and m: "match_items items cs"
      by (cases s) auto
    from 3(1) [OF s] m obtain n where "fullmatch items (take n cs)" by blast
    with c have "fullmatch ((code, Optional) # items) (take (Suc n) s)"
      by (simp add: s fm_Optional_take)
    then show ?thesis by blast
  qed
next
  case (4 code items s)
  show ?case
  proof (cases "match_items items s")
    case True
    with 4(2) obtain n where "fullmatch items (take n s)" by blast
    then have "fullmatch ((code, Star) # items) (take n s)" by (rule fm_Star_skip)
    then show ?thesis by blast
  next
    case False
    with 4(3) obtain c cs where s: "s = c # cs" and c: "op_match code c"
      and m: "match_items ((code, Star) # items) cs"
      by (cases s) auto
    from 4(1) [OF s] m obtain n where "fullmatch ((code, Star) # items) (take n cs)" by blast
    with c have "fullmatch ((code, Star) # items) (take (Suc n) s)"
      by (simp add: s fm_Star_take)
    then show ?thesis by blast
  qed
next
  case (5 code items s)
  then obtain c cs where s: "s = c # cs" and c: "op_match code c"
    and m: "match_items ((code, Star) # items) cs"
    by (cases s) auto
  from 5(1) [OF s] m obtain n where "fullmatch ((code, Star) # items) (take n cs)" by blast
  with c have "fullmatch ((code, Plus) # items) (take (Suc n) s)"
    by (simp add: s fm_Plus)
  then show ?case by blast
qed

lemma op_match_not_AT_END: "op_match code c \<Longrightarrow> code \<noteq> AT_END"
  by auto

lemma fullmatch_match_items: "fullmatch items u \<Longrightarrow> match_items items u"
  by (induction rule: fullmatch.induct) (auto dest: op_match_not_AT_END)








lemma re_match_empty: "re_match [] s = Inr True"
  by (simp add: re_match_def sre_parse_def)

lemma re_match_newline: "re_match [NL] s = Inr (\<exists>rest. s = NL # rest)"
  by (cases s) (auto simp: re_match_def sre_parse_def)

subsection \<open>A pattern that ends with a newline\<close>

lemma escape_NL: "escape NL = Inr (LITERAL NL)"
  by (simp add: escape_def is_digit_def is_alpha_def)

lemma parse_char_NL:
  assumes "parse_char NL st = Building branches items m"
  shows "\<exists>before. items = (LITERAL NL, Once) # before"
proof (cases st)
  case (Building bs its md)
  with assms show ?thesis
    by (cases md) (auto simp: escape_NL split: if_splits)
next
  case (Stopped err)
  with assms show ?thesis by simp
qed

lemma sre_parse_trailing_NL:
  assumes "sre_parse (body @ [NL]) = Inr branches"
  shows "branches \<noteq> [] \<and> (\<exists>its. last branches = its @ [(LITERAL NL, Once)])"
proof -
  let ?st = "parse_char NL (fold parse_char body (Building [] [] Plain))"
  from assms have pe: "parse_end ?st = Inr branches"
    by (simp add: sre_parse_def)
  then obtain bs items m where st: "?st = Building bs items m"
    by (cases ?st) auto
  with pe have br: "branches = rev (map rev (items # bs))"
    by (cases m) auto
  from parse_char_NL [OF st] obtain before where "items = (LITERAL NL, Once) # before" ..
  with br show ?thesis by simp
qed

inductive_cases fullmatch_NilE: "fullmatch [] s"

lemma fullmatch_snoc_literal:
  "fullmatch items w \<Longrightarrow> items = its @ [(LITERAL c, Once)] \<Longrightarrow>
   \<exists>u. w = u @ [c] \<and> fullmatch its u"
proof (induction arbitrary: its rule: fullmatch.induct)
  case fm_Nil
  then show ?case by simp
next
  case (fm_Once code ch items s)
  show ?case
  proof (cases its)
    case Nil
    with fm_Once.prems have "items = []" "code = LITERAL c" by simp_all
    with fm_Once.hyps have "s = []" "ch = c" by (auto elim: fullmatch_NilE)
    with Nil show ?thesis by (simp add: fullmatch.fm_Nil)
  next
    case (Cons i its')
    with fm_Once.prems have "i = (code, Once)" "items = its' @ [(LITERAL c, Once)]" by simp_all
    with fm_Once.IH [of its'] fm_Once.hyps(1) Cons show ?thesis
      by (auto intro: fullmatch.fm_Once)
  qed
next
  case (fm_Optional_skip items s code)
  then obtain its' where "its = (code, Optional) # its'" "items = its' @ [(LITERAL c, Once)]"
    by (cases its) auto
  with fm_Optional_skip.IH [of its'] show ?case
    by (auto intro: fullmatch.fm_Optional_skip)
next
  case (fm_Optional_take code ch items s)
  then obtain its' where "its = (code, Optional) # its'" "items = its' @ [(LITERAL c, Once)]"
    by (cases its) auto
  with fm_Optional_take.IH [of its'] fm_Optional_take.hyps(1) show ?case
    by (auto intro: fullmatch.fm_Optional_take)
next
  case (fm_Star_skip items s code)
  then obtain its' where "its = (code, Star) # its'" "items = its' @ [(LITERAL c, Once)]"
    by (cases its) auto
  with fm_Star_skip.IH [of its'] show ?case
    by (auto intro: fullmatch.fm_Star_skip)
next
  case (fm_Star_take code ch items s)
  then obtain its' where its: "its = (code, Star) # its'" "items = its' @ [(LITERAL c, Once)]"
    by (cases its) auto
  with fm_Star_take.IH [of its] fm_Star_take.hyps(1) show ?case
    by (auto intro: fullmatch.fm_Star_take)
next
  case (fm_Plus code ch items s)
  then obtain its' where its: "its = (code, Plus) # its'" "items = its' @ [(LITERAL c, Once)]"
    by (cases its) auto
  with fm_Plus.IH [of "(code, Star) # its'"] fm_Plus.hyps(1) show ?case
    by (auto intro: fullmatch.fm_Plus)
next
  case (fm_At_end items)
  then obtain its' where "its = (AT_END, Once) # its'" "items = its' @ [(LITERAL c, Once)]"
    by (cases its) auto
  with fm_At_end.IH [of its'] show ?case by simp
next
  case (fm_At_end_newline items)
  then obtain its' where "its = (AT_END, Once) # its'" "items = its' @ [(LITERAL c, Once)]"
    by (cases its) auto
  with fm_At_end_newline.IH [of its'] show ?case
    by (auto simp: Cons_eq_append_conv intro: fullmatch.fm_At_end)
qed

lemma match_trailing_NL_whole_line:
  assumes "match_items (its @ [(LITERAL NL, Once)]) line"
    and "NL \<notin> set (butlast line)"
  shows "line \<noteq> [] \<and> last line = NL \<and> fullmatch (its @ [(LITERAL NL, Once)]) line"
proof -
  from assms(1) obtain n where fm: "fullmatch (its @ [(LITERAL NL, Once)]) (take n line)"
    using match_items_fullmatch_prefix by blast
  then obtain u where u: "take n line = u @ [NL]"
    using fullmatch_snoc_literal by blast
  have "drop n line = []"
  proof (rule ccontr)
    assume "drop n line \<noteq> []"
    then have "butlast line = take n line @ butlast (drop n line)"
      by (metis append_take_drop_id butlast_append)
    with u assms(2) show False by simp
  qed
  then have "take n line = line" by simp
  with fm u show ?thesis by (metis last_snoc snoc_eq_iff_butlast)
qed

section \<open>The claims\<close>

text \<open>
  In the theorems below \<open>fs\<close> is the file system, \<open>ca\<close> and \<open>ce\<close> are the contents of the
  actual-output file and of the expectations file, \<open>file_lines ca\<close> are the actual lines
  and \<open>expected_lines (file_lines ce) check_prefix\<close> the patterns. The theorems about the
  walk hold for every behaviour \<open>m\<close> of the regular-expression engine; their witnesses
  run \<open>compare\<close>, the walk with the engine \<open>re_match\<close>.
\<close>

subsection \<open>C1: all pairs match\<close>

text \<open>
  Claim C1. For every pair of inputs in which the number of actual-output lines equals the
  number of annotated expectation lines and, for every position \<open>i\<close>, the \<open>i\<close>-th pattern
  matches the \<open>i\<close>-th actual line at position zero, \<^verbatim>\<open>compare\<close> returns normally and raises
  no error.
\<close>

theorem compare_succeeds_when_all_lines_match:
  assumes "fs actual = Some ca" and "fs expected = Some ce"
    and "length (file_lines ca) = length (expected_lines (file_lines ce) check_prefix)"
    and "\<forall>i < length (file_lines ca).
           m (expected_lines (file_lines ce) check_prefix ! i) (file_lines ca ! i) = Inr True"
  shows "compare_with m fs actual expected check_prefix = Inr ()"
proof -
  let ?as = "file_lines ca" and ?ps = "expected_lines (file_lines ce) check_prefix"
  have "compare_loop m (zip_longest ?as ?ps) =
          compare_loop m (zip_longest (drop (length ?as) ?as) (drop (length ?as) ?ps))"
    using assms(3,4) by (intro compare_loop_skip) auto
  with assms(3) show ?thesis
    by (simp add: compare_with_eq [OF assms(1,2)])
qed

theorem compare_succeeds_when_all_lines_match_witness:
  "compare example_fs ''pass.out'' ''pass.exp'' ''#'' = Inr ()"
proof -
  have a: "example_fs ''pass.out'' = Some (''hello'' @ [NL] @ ''world'' @ [NL])"
    and e: "example_fs ''pass.exp'' =
              Some (''#hel+o'' @ [NL] @ ''let x = 1'' @ [NL] @ ''#w.rld'' @ [NL])"
    by (simp_all add: example_fs_def)
  show ?thesis
    unfolding compare_def
    by (rule compare_succeeds_when_all_lines_match
          [where fs = example_fs and m = re_match, OF a e])
      (simp_all add: startswith_def less_Suc_eq re_match_def sre_parse_def repeat_of_def)
qed

subsection \<open>C2: the first pair that does not match\<close>

text \<open>
  Claim C2, as amended. Let \<open>i\<close> be the first position whose pattern does not match its
  actual line at position zero. \<^verbatim>\<open>compare\<close> fails at position \<open>i\<close>, whatever the later
  lines and patterns are: when \<^verbatim>\<open>re.match\<close> returns no match there, with the assertion
  error whose message holds the \<^verbatim>\<open>repr\<close> of the \<open>i\<close>-th actual line and of the \<open>i\<close>-th pattern;
  when \<^verbatim>\<open>re.match\<close> raises there (the pattern is no valid regular expression), with that
  error. The theorem needs no equal counts, only that position \<open>i\<close> has a line and a
  pattern.
\<close>

theorem compare_fails_at_first_mismatch:
  assumes "fs actual = Some ca" and "fs expected = Some ce"
    and "i < length (file_lines ca)"
    and "i < length (expected_lines (file_lines ce) check_prefix)"
    and "\<forall>j<i. m (expected_lines (file_lines ce) check_prefix ! j) (file_lines ca ! j) = Inr True"
    and "m (expected_lines (file_lines ce) check_prefix ! i) (file_lines ca ! i) \<noteq> Inr True"
  shows "compare_with m fs actual expected check_prefix =
           (case m (expected_lines (file_lines ce) check_prefix ! i) (file_lines ca ! i) of
              Inl err \<Rightarrow> Inl err
            | Inr matched \<Rightarrow>
                Inl (AssertionError
                       (did_not_match (file_lines ca ! i)
                          (expected_lines (file_lines ce) check_prefix ! i))))"
  using assms(6)
  by (simp add: compare_with_eq [OF assms(1,2)] compare_loop_at [OF assms(3,4,5)]
      split: sum.splits)

theorem compare_fails_at_first_mismatch_witness:
  "compare example_fs ''second.out'' ''second.exp'' ''#'' =
     Inl (AssertionError (did_not_match (''bar'' @ [NL]) (''baz'' @ [NL])))"
proof -
  have a: "example_fs ''second.out'' = Some (''foo'' @ [NL] @ ''bar'' @ [NL])"
    and e: "example_fs ''second.exp'' = Some (''#foo'' @ [NL] @ ''#baz'' @ [NL])"
    by (simp_all add: example_fs_def)
  have "compare_with re_match example_fs ''second.out'' ''second.exp'' ''#'' =
     Inl (AssertionError (did_not_match (''bar'' @ [NL]) (''baz'' @ [NL])))"
    by (subst compare_fails_at_first_mismatch
          [where fs = example_fs and m = re_match and i = 1, OF a e])
      (simp_all add: startswith_def re_match_def sre_parse_def repeat_of_def)
  then show ?thesis by (simp add: compare_def)
qed

text \<open>
  The claim as stated fails when a pattern is no valid regular expression: the output
  \<^verbatim>\<open>a\<close>, \<^verbatim>\<open>b\<close> against the expectations \<^verbatim>\<open>#*\<close>, \<^verbatim>\<open>#c\<close> has two lines and two patterns;
  for the first pattern \<^verbatim>\<open>re.match\<close> raises \<^verbatim>\<open>re.error\<close> (nothing to repeat), for the second it
  returns no match. \<^verbatim>\<open>compare\<close> raises the \<^verbatim>\<open>re.error\<close>: an error that reports no line and
  no pattern, neither of the first position nor of the second.
\<close>

theorem compare_invalid_pattern_counterexample:
  "length (file_lines (''a'' @ [NL] @ ''b'' @ [NL])) =
     length (expected_lines (file_lines (''#*'' @ [NL] @ ''#c'' @ [NL])) ''#'') \<and>
   re_match (expected_lines (file_lines (''#*'' @ [NL] @ ''#c'' @ [NL])) ''#'' ! 0)
     (file_lines (''a'' @ [NL] @ ''b'' @ [NL]) ! 0) = Inl Re_error \<and>
   re_match (expected_lines (file_lines (''#*'' @ [NL] @ ''#c'' @ [NL])) ''#'' ! 1)
     (file_lines (''a'' @ [NL] @ ''b'' @ [NL]) ! 1) = Inr False \<and>
   compare example_fs ''star.out'' ''star.exp'' ''#'' = Inl Re_error \<and>
   compare example_fs ''star.out'' ''star.exp'' ''#'' \<noteq>
     Inl (AssertionError
            (did_not_match (file_lines (''a'' @ [NL] @ ''b'' @ [NL]) ! 0)
               (expected_lines (file_lines (''#*'' @ [NL] @ ''#c'' @ [NL])) ''#'' ! 0))) \<and>
   compare example_fs ''star.out'' ''star.exp'' ''#'' \<noteq>
     Inl (AssertionError
            (did_not_match (file_lines (''a'' @ [NL] @ ''b'' @ [NL]) ! 1)
               (expected_lines (file_lines (''#*'' @ [NL] @ ''#c'' @ [NL])) ''#'' ! 1)))"
proof -
  have a: "example_fs ''star.out'' = Some (''a'' @ [NL] @ ''b'' @ [NL])"
    and e: "example_fs ''star.exp'' = Some (''#*'' @ [NL] @ ''#c'' @ [NL])"
    by (simp_all add: example_fs_def)
  show ?thesis
    by (simp add: compare_def compare_with_eq [where fs = example_fs, OF a e]
        startswith_def re_match_def sre_parse_def)
qed

subsection \<open>C3: one sequence is exhausted first\<close>

text \<open>
  Claim C3. If the actual lines are exhausted before the patterns and all pairs so far
  matched, \<^verbatim>\<open>compare\<close> fails with the error that more lines were expected than there are
  in the actual output; if the patterns are exhausted first, it fails with the error that
  there are more actual lines than expected.
\<close>

theorem compare_length_mismatch_after_matches:
  assumes "fs actual = Some ca" and "fs expected = Some ce"
  shows
    "(length (file_lines ca) < length (expected_lines (file_lines ce) check_prefix) \<and>
      (\<forall>i < length (file_lines ca).
         m (expected_lines (file_lines ce) check_prefix ! i) (file_lines ca ! i) = Inr True)
      \<longrightarrow> compare_with m fs actual expected check_prefix = Inl (AssertionError more_expected)) \<and>
     (length (expected_lines (file_lines ce) check_prefix) < length (file_lines ca) \<and>
      (\<forall>i < length (expected_lines (file_lines ce) check_prefix).
         m (expected_lines (file_lines ce) check_prefix ! i) (file_lines ca ! i) = Inr True)
      \<longrightarrow> compare_with m fs actual expected check_prefix = Inl (AssertionError more_actual))"
proof -
  let ?as = "file_lines ca" and ?ps = "expected_lines (file_lines ce) check_prefix"
  have short: "compare_loop m (zip_longest ?as ?ps) = Inl (AssertionError more_expected)"
    if "length ?as < length ?ps" "\<forall>i < length ?as. m (?ps ! i) (?as ! i) = Inr True"
  proof -
    have "compare_loop m (zip_longest ?as ?ps) =
            compare_loop m (zip_longest (drop (length ?as) ?as) (drop (length ?as) ?ps))"
      using that by (intro compare_loop_skip) auto
    with that(1) show ?thesis by (simp add: compare_loop_more_expected)
  qed
  have long: "compare_loop m (zip_longest ?as ?ps) = Inl (AssertionError more_actual)"
    if "length ?ps < length ?as" "\<forall>i < length ?ps. m (?ps ! i) (?as ! i) = Inr True"
  proof -
    have "compare_loop m (zip_longest ?as ?ps) =
            compare_loop m (zip_longest (drop (length ?ps) ?as) (drop (length ?ps) ?ps))"
      using that by (intro compare_loop_skip) auto
    with that(1) show ?thesis by (simp add: compare_loop_more_actual)
  qed
  from short long show ?thesis
    by (simp add: compare_with_eq [OF assms])
qed

theorem compare_length_mismatch_after_matches_witness:
  "compare example_fs ''short.out'' ''short.exp'' ''#'' = Inl (AssertionError more_expected) \<and>
   compare example_fs ''long.out'' ''long.exp'' ''#'' = Inl (AssertionError more_actual)"
proof -
  have a1: "example_fs ''short.out'' = Some (''hello'' @ [NL])"
    and e1: "example_fs ''short.exp'' = Some (''#hello'' @ [NL] @ ''#extra'' @ [NL])"
    and a2: "example_fs ''long.out'' = Some (''hello'' @ [NL] @ ''goodbye'' @ [NL])"
    and e2: "example_fs ''long.exp'' = Some (''#hello'' @ [NL])"
    by (simp_all add: example_fs_def)
  have "compare_with re_match example_fs ''short.out'' ''short.exp'' ''#'' =
          Inl (AssertionError more_expected)"
    using compare_length_mismatch_after_matches
            [where fs = example_fs and m = re_match and check_prefix = "''#''", OF a1 e1]
    by (simp add: startswith_def re_match_def sre_parse_def)
  moreover have "compare_with re_match example_fs ''long.out'' ''long.exp'' ''#'' =
          Inl (AssertionError more_actual)"
    using compare_length_mismatch_after_matches
            [where fs = example_fs and m = re_match and check_prefix = "''#''", OF a2 e2]
    by (simp add: startswith_def re_match_def sre_parse_def)
  ultimately show ?thesis by (simp add: compare_def)
qed

subsection \<open>C4: the counts differ\<close>

text \<open>
  Claim C4, as amended. For every pair of inputs in which the number of actual lines
  differs from the number of patterns, \<^verbatim>\<open>compare\<close> fails. It fails with the length-mismatch
  error (more lines expected when the actual lines are fewer, more actual lines otherwise)
  when every line that has a pattern matches it; and when some pair does not match, it
  fails at the first such pair, with that pair's error, before any length is noticed.
\<close>

theorem compare_fails_when_counts_differ:
  assumes "fs actual = Some ca" and "fs expected = Some ce"
    and "length (file_lines ca) \<noteq> length (expected_lines (file_lines ce) check_prefix)"
  shows
    "compare_with m fs actual expected check_prefix \<noteq> Inr () \<and>
     ((\<forall>i < min (length (file_lines ca)) (length (expected_lines (file_lines ce) check_prefix)).
         m (expected_lines (file_lines ce) check_prefix ! i) (file_lines ca ! i) = Inr True)
      \<longrightarrow> compare_with m fs actual expected check_prefix =
            Inl (AssertionError
                   (if length (file_lines ca) < length (expected_lines (file_lines ce) check_prefix)
                    then more_expected else more_actual))) \<and>
     (\<forall>i < min (length (file_lines ca)) (length (expected_lines (file_lines ce) check_prefix)).
        (\<forall>j<i. m (expected_lines (file_lines ce) check_prefix ! j) (file_lines ca ! j) = Inr True) \<and>
        m (expected_lines (file_lines ce) check_prefix ! i) (file_lines ca ! i) \<noteq> Inr True
        \<longrightarrow> compare_with m fs actual expected check_prefix =
              (case m (expected_lines (file_lines ce) check_prefix ! i) (file_lines ca ! i) of
                 Inl err \<Rightarrow> Inl err
               | Inr matched \<Rightarrow>
                   Inl (AssertionError
                          (did_not_match (file_lines ca ! i)
                             (expected_lines (file_lines ce) check_prefix ! i)))))"
proof -
  let ?as = "file_lines ca" and ?ps = "expected_lines (file_lines ce) check_prefix"
  let ?n = "min (length ?as) (length ?ps)"
  have fails: "compare_loop m (zip_longest ?as ?ps) \<noteq> Inr ()"
    using assms(3) by (rule compare_loop_length_differs)
  have lengths:
    "compare_loop m (zip_longest ?as ?ps) =
       Inl (AssertionError (if length ?as < length ?ps then more_expected else more_actual))"
    if "\<forall>i < ?n. m (?ps ! i) (?as ! i) = Inr True"
  proof -
    have "compare_loop m (zip_longest ?as ?ps) =
            compare_loop m (zip_longest (drop ?n ?as) (drop ?n ?ps))"
      using that by (intro compare_loop_skip) auto
    with assms(3) show ?thesis
      by (cases "length ?as < length ?ps")
        (simp_all add: min_def compare_loop_more_expected compare_loop_more_actual)
  qed
  have pair: "compare_loop m (zip_longest ?as ?ps) =
                (case m (?ps ! i) (?as ! i) of
                   Inl err \<Rightarrow> Inl err
                 | Inr matched \<Rightarrow> Inl (AssertionError (did_not_match (?as ! i) (?ps ! i))))"
    if "i < ?n" "\<forall>j<i. m (?ps ! j) (?as ! j) = Inr True" "m (?ps ! i) (?as ! i) \<noteq> Inr True"
    for i
  proof -
    from that(1) have "i < length ?as" "i < length ?ps" by simp_all
    from compare_loop_at [OF this that(2)] that(3) show ?thesis
      by (simp split: sum.splits)
  qed
  from fails lengths pair show ?thesis
    unfolding compare_with_eq [OF assms(1,2)] by blast
qed

theorem compare_fails_when_counts_differ_witness:
  "compare example_fs ''long.out'' ''long.exp'' ''#'' = Inl (AssertionError more_actual)"
proof -
  have a: "example_fs ''long.out'' = Some (''hello'' @ [NL] @ ''goodbye'' @ [NL])"
    and e: "example_fs ''long.exp'' = Some (''#hello'' @ [NL])"
    by (simp_all add: example_fs_def)
  have "compare_with re_match example_fs ''long.out'' ''long.exp'' ''#'' =
          Inl (AssertionError more_actual)"
    using compare_fails_when_counts_differ
            [where fs = example_fs and m = re_match and check_prefix = "''#''", OF a e]
    by (simp add: startswith_def re_match_def sre_parse_def)
  then show ?thesis by (simp add: compare_def)
qed

text \<open>
  The claim as stated fails when a line that is present does not match: the output
  \<^verbatim>\<open>hello\<close> against the expectations \<^verbatim>\<open>#bar\<close>, \<^verbatim>\<open>#baz\<close> has one line and two patterns, and
  \<^verbatim>\<open>compare\<close> raises the error of the first pair, not a length-mismatch error.
\<close>

theorem compare_counts_differ_counterexample:
  "length (file_lines (''hello'' @ [NL])) \<noteq>
     length (expected_lines (file_lines (''#bar'' @ [NL] @ ''#baz'' @ [NL])) ''#'') \<and>
   compare example_fs ''short.out'' ''bar.exp'' ''#'' =
     Inl (AssertionError (did_not_match (''hello'' @ [NL]) (''bar'' @ [NL]))) \<and>
   compare example_fs ''short.out'' ''bar.exp'' ''#'' \<noteq> Inl (AssertionError more_expected) \<and>
   compare example_fs ''short.out'' ''bar.exp'' ''#'' \<noteq> Inl (AssertionError more_actual)"
proof -
  have a: "example_fs ''short.out'' = Some (''hello'' @ [NL])"
    and e: "example_fs ''bar.exp'' = Some (''#bar'' @ [NL] @ ''#baz'' @ [NL])"
    by (simp_all add: example_fs_def)
  show ?thesis
    by (simp add: compare_def compare_with_eq [where fs = example_fs, OF a e] startswith_def
        re_match_def sre_parse_def did_not_match_def more_expected_def more_actual_def)
qed

subsection \<open>C5: the lines that are patterns\<close>

text \<open>
  Claim C5. A line of the expectations file that does not begin with the check prefix
  (compared exactly from position zero, with no trimming and no folding of case) never
  contributes to the pattern sequence and takes no position in it, whatever stands before
  and after it: the generator passes over it, and \<^verbatim>\<open>compare\<close> gives the same verdict on the
  file with the line and on the file without it. A line that begins with the prefix
  contributes exactly the rest of the line after the prefix, at its place.
\<close>

theorem expected_lines_selects_prefixed_lines:
  "(startswith line check_prefix \<longleftrightarrow> (\<exists>pattern. line = check_prefix @ pattern)) \<and>
   (\<not> startswith line check_prefix \<longrightarrow>
      expected_lines (before @ line # after) check_prefix =
        expected_lines (before @ after) check_prefix \<and>
      expected_lines_resume check_prefix (line # after) =
        expected_lines_resume check_prefix after) \<and>
   (\<not> startswith line check_prefix \<and> fs actual = Some ca \<and>
    fs expected = Some ce \<and> file_lines ce = before @ line # after \<and>
    fs expected' = Some ce' \<and> file_lines ce' = before @ after \<longrightarrow>
      compare_with m fs actual expected check_prefix =
        compare_with m fs actual expected' check_prefix) \<and>
   expected_lines (before @ (check_prefix @ pattern) # after) check_prefix =
     expected_lines before check_prefix @ pattern # expected_lines after check_prefix \<and>
   expected_lines_resume check_prefix ((check_prefix @ pattern) # after) =
     (Inr (Some pattern), Suspended after)"
proof -
  have passed: "expected_lines (before @ line # after) check_prefix =
                expected_lines (before @ after) check_prefix"
    if "\<not> startswith line check_prefix"
    using that by (simp add: expected_lines_append)
  have same: "compare_with m fs actual expected check_prefix =
                compare_with m fs actual expected' check_prefix"
    if "\<not> startswith line check_prefix" and "fs actual = Some ca"
      and "fs expected = Some ce" and "file_lines ce = before @ line # after"
      and "fs expected' = Some ce'" and "file_lines ce' = before @ after"
    using passed [OF that(1)] that(4,6)
    by (simp add: compare_with_eq [OF that(2,3)] compare_with_eq [OF that(2,5)])
  have kept: "expected_lines (before @ (check_prefix @ pattern) # after) check_prefix =
                expected_lines before check_prefix @ pattern # expected_lines after check_prefix"
    by (simp add: expected_lines_append startswith_def)
  from passed same kept show ?thesis
    by (simp add: startswith_iff)
qed

theorem expected_lines_selects_prefixed_lines_witness:
  "expected_lines [''// check: a'', '' // CHECK: b'', ''// CHECK: c''] ''// CHECK: '' = [''c''] \<and>
   compare example_fs ''pass.out'' ''pass.exp'' ''#'' =
     compare example_fs ''pass.out'' ''bare.pass.exp'' ''#''"
proof -
  have 1: "\<not> startswith ''// check: a'' ''// CHECK: ''"
    and 2: "\<not> startswith '' // CHECK: b'' ''// CHECK: ''"
    by (simp_all add: startswith_def)
  from expected_lines_selects_prefixed_lines
         [of "''// check: a''" "''// CHECK: ''" "[]" "['' // CHECK: b'', ''// CHECK: c'']"] 1
  have "expected_lines [''// check: a'', '' // CHECK: b'', ''// CHECK: c''] ''// CHECK: '' =
          expected_lines ['' // CHECK: b'', ''// CHECK: c''] ''// CHECK: ''"
    by simp
  also from expected_lines_selects_prefixed_lines
         [of "'' // CHECK: b''" "''// CHECK: ''" "[]" "[''// CHECK: c'']"] 2
  have "\<dots> = expected_lines [''// CHECK: c''] ''// CHECK: ''"
    by simp
  also from expected_lines_selects_prefixed_lines
         [where check_prefix = "''// CHECK: ''" and before = "[]" and pattern = "''c''"
            and after = "[]"]
  have "\<dots> = [''c'']"
    by simp
  finally have selected:
    "expected_lines [''// check: a'', '' // CHECK: b'', ''// CHECK: c''] ''// CHECK: '' = [''c'']" .
  have a: "example_fs ''pass.out'' = Some (''hello'' @ [NL] @ ''world'' @ [NL])"
    and e: "example_fs ''pass.exp'' =
              Some (''#hel+o'' @ [NL] @ ''let x = 1'' @ [NL] @ ''#w.rld'' @ [NL])"
    and e': "example_fs ''bare.pass.exp'' = Some (''#hel+o'' @ [NL] @ ''#w.rld'' @ [NL])"
    by (simp_all add: example_fs_def)
  have 3: "\<not> startswith (''let x = 1'' @ [NL]) ''#''"
    by (simp add: startswith_def)
  have l: "file_lines (''#hel+o'' @ [NL] @ ''let x = 1'' @ [NL] @ ''#w.rld'' @ [NL]) =
             [''#hel+o'' @ [NL]] @ (''let x = 1'' @ [NL]) # [''#w.rld'' @ [NL]]"
    and l': "file_lines (''#hel+o'' @ [NL] @ ''#w.rld'' @ [NL]) =
             [''#hel+o'' @ [NL]] @ [''#w.rld'' @ [NL]]"
    by simp_all
  from expected_lines_selects_prefixed_lines
         [where line = "''let x = 1'' @ [NL]" and check_prefix = "''#''" and fs = example_fs
            and actual = "''pass.out''" and expected = "''pass.exp''"
            and expected' = "''bare.pass.exp''" and before = "[''#hel+o'' @ [NL]]"
            and after = "[''#w.rld'' @ [NL]]" and m = re_match]
    3 a e e' l l'
  have "compare_with re_match example_fs ''pass.out'' ''pass.exp'' ''#'' =
          compare_with re_match example_fs ''pass.out'' ''bare.pass.exp'' ''#''"
    by blast
  with selected show ?thesis by (simp add: compare_def)
qed

subsection \<open>C6: the empty pattern\<close>

text \<open>
  Claim C6, as amended. The pattern of an annotated line is empty only when the line is
  exactly the check prefix, with no newline after it: for a prefix without a newline a
  line that ends with a newline never gives the empty pattern, so that in a file only the
  unterminated last line can. The empty pattern matches every actual line, and a pair with
  it never raises a content mismatch: the loop goes on to the next pair. A line that is
  the prefix followed by its newline gives the pattern that is one newline; that pattern
  matches exactly the strings that begin with a newline, among the lines of a file only
  the blank line, and the pair raises the content mismatch for every other actual line.
\<close>

theorem empty_pattern_only_for_bare_prefix:
  "(startswith line check_prefix \<longrightarrow>
      (drop (length check_prefix) line = [] \<longleftrightarrow> line = check_prefix)) \<and>
   (startswith line check_prefix \<and> NL \<notin> set check_prefix \<and> line \<noteq> [] \<and> last line = NL
      \<longrightarrow> drop (length check_prefix) line \<noteq> []) \<and>
   expected_lines [check_prefix] check_prefix = [[]] \<and>
   re_match [] actual_line = Inr True \<and>
   compare_loop re_match ((Some actual_line, Some []) # rest) = compare_loop re_match rest \<and>
   expected_lines [check_prefix @ [NL]] check_prefix = [[NL]] \<and>
   re_match [NL] actual_line = Inr (\<exists>tail. actual_line = NL # tail) \<and>
   (actual_line \<in> set (file_lines content) \<and> re_match [NL] actual_line = Inr True
      \<longrightarrow> actual_line = [NL]) \<and>
   ((\<forall>tail. actual_line \<noteq> NL # tail) \<longrightarrow>
      compare_loop re_match ((Some actual_line, Some [NL]) # rest) =
        Inl (AssertionError (did_not_match actual_line [NL])))"
proof -
  have bare: "drop (length check_prefix) line = [] \<longleftrightarrow> line = check_prefix"
    if "startswith line check_prefix"
  proof -
    from that have eq: "line = check_prefix @ drop (length check_prefix) line"
      by (metis append_take_drop_id startswith_def)
    show ?thesis
    proof
      assume "drop (length check_prefix) line = []"
      with eq show "line = check_prefix" by simp
    next
      assume "line = check_prefix"
      then show "drop (length check_prefix) line = []" by simp
    qed
  qed
  have terminated: "drop (length check_prefix) line \<noteq> []"
    if "startswith line check_prefix" "NL \<notin> set check_prefix" "line \<noteq> []" "last line = NL"
  proof
    assume "drop (length check_prefix) line = []"
    with bare [OF that(1)] have "line = check_prefix" by simp
    with that(2,3,4) show False by (metis last_in_set)
  qed
  have blank: "actual_line = [NL]"
    if "actual_line \<in> set (file_lines content)" "re_match [NL] actual_line = Inr True"
  proof -
    from that(2) obtain tail where tail: "actual_line = NL # tail"
      by (auto simp: re_match_newline)
    from file_lines_newline_last [OF that(1)] tail have "tail = []"
      by (cases tail) (auto split: if_splits)
    with tail show ?thesis by simp
  qed
  from bare terminated blank show ?thesis
    by (simp add: re_match_empty re_match_newline startswith_def)
qed

theorem empty_pattern_only_for_bare_prefix_witness:
  "compare example_fs ''short.out'' ''bare.exp'' ''#'' = Inr ()"
proof -
  have a: "example_fs ''short.out'' = Some (''hello'' @ [NL])"
    and e: "example_fs ''bare.exp'' = Some ''#''"
    by (simp_all add: example_fs_def)
  have "compare_with re_match example_fs ''short.out'' ''bare.exp'' ''#'' =
          compare_loop re_match [(Some (''hello'' @ [NL]), Some [])]"
    by (simp add: compare_with_eq [where fs = example_fs, OF a e] startswith_def)
  also have "\<dots> = compare_loop re_match []"
    using empty_pattern_only_for_bare_prefix
            [where check_prefix = "''#''" and actual_line = "''hello'' @ [NL]" and rest = "[]"]
    by simp
  finally show ?thesis by (simp add: compare_def)
qed

text \<open>
  The claim as stated fails for the ordinary annotated line that holds the prefix and
  nothing more: in the expectations file \<^verbatim>\<open>#\<close> followed by a newline the line read is the
  prefix and the newline, its pattern is the newline and not the empty pattern, and
  against the output \<^verbatim>\<open>hello\<close> \<^verbatim>\<open>compare\<close> raises the content mismatch.
\<close>

theorem marker_only_line_counterexample:
  "file_lines (''#'' @ [NL]) = [''#'' @ [NL]] \<and>
   expected_lines (file_lines (''#'' @ [NL])) ''#'' = [[NL]] \<and>
   re_match [NL] (''hello'' @ [NL]) = Inr False \<and>
   compare example_fs ''short.out'' ''marker.exp'' ''#'' =
     Inl (AssertionError (did_not_match (''hello'' @ [NL]) [NL]))"
proof -
  have a: "example_fs ''short.out'' = Some (''hello'' @ [NL])"
    and e: "example_fs ''marker.exp'' = Some (''#'' @ [NL])"
    by (simp_all add: example_fs_def)
  show ?thesis
    by (simp add: compare_def compare_with_eq [where fs = example_fs, OF a e] startswith_def
        re_match_def sre_parse_def)
qed

subsection \<open>C7: a match anchored at position zero\<close>




subsection \<open>C8: how much of the files is read\<close>

text \<open>
  Claim C8, as amended. \<^verbatim>\<open>compare\<close> does not read its inputs lazily: \<^verbatim>\<open>map(None, ...)\<close> reads
  both files to the end and builds the list of all pairs before the first pair is
  checked, so that on every outcome, success or failure at any pair, no line of either
  file is left unread. Only the checking stops short: the loop raises at the first pair
  that fails, and no pair after it is checked or reported.
\<close>

theorem compare_reads_both_files_to_the_end:
  assumes "fs actual = Some ca" and "fs expected = Some ce"
  shows
    "map_None fs actual expected check_prefix Unstarted Unstarted =
       (Inr (zip_longest (file_lines ca) (expected_lines (file_lines ce) check_prefix)),
        Exhausted, Exhausted) \<and>
     compare_run m fs actual expected check_prefix =
       (compare_loop m (zip_longest (file_lines ca) (expected_lines (file_lines ce) check_prefix)),
        Exhausted, Exhausted) \<and>
     unread_lines fs actual (fst (snd (compare_run m fs actual expected check_prefix))) = [] \<and>
     unread_lines fs expected (snd (snd (compare_run m fs actual expected check_prefix))) = [] \<and>
     (compare_loop m pairs = Inl err \<longrightarrow> compare_loop m (pairs @ later) = Inl err)"
  using assms map_None_started [of Unstarted fs actual Unstarted expected check_prefix]
  by (simp add: compare_run_eq [OF assms] compare_loop_stops)

theorem compare_reads_both_files_to_the_end_witness:
  "compare_run re_match example_fs ''second.out'' ''second.exp'' ''#'' =
     (Inl (AssertionError (did_not_match (''bar'' @ [NL]) (''baz'' @ [NL]))),
      Exhausted, Exhausted)"
proof -
  have a: "example_fs ''second.out'' = Some (''foo'' @ [NL] @ ''bar'' @ [NL])"
    and e: "example_fs ''second.exp'' = Some (''#foo'' @ [NL] @ ''#baz'' @ [NL])"
    by (simp_all add: example_fs_def)
  from compare_reads_both_files_to_the_end
         [where fs = example_fs and m = re_match and check_prefix = "''#''", OF a e]
  show ?thesis
    by (simp add: startswith_def re_match_def sre_parse_def)
qed

text \<open>
  The claim as stated fails on the output \<^verbatim>\<open>foo\<close>, \<^verbatim>\<open>bar\<close> against the expectations
  \<^verbatim>\<open>#bar\<close>, \<^verbatim>\<open>#baz\<close>: the verification fails at the first pair, for which one line of each
  file is needed, and yet the second line of each file has been read: nothing is left
  unread of either file.
\<close>

theorem compare_not_lazy_counterexample:
  "fst (compare_run re_match example_fs ''second.out'' ''bar.exp'' ''#'') =
     Inl (AssertionError
            (did_not_match (file_lines (''foo'' @ [NL] @ ''bar'' @ [NL]) ! 0)
               (expected_lines (file_lines (''#bar'' @ [NL] @ ''#baz'' @ [NL])) ''#'' ! 0))) \<and>
   unread_lines example_fs ''second.out''
     (fst (snd (compare_run re_match example_fs ''second.out'' ''bar.exp'' ''#''))) = [] \<and>
   unread_lines example_fs ''second.out''
     (fst (snd (compare_run re_match example_fs ''second.out'' ''bar.exp'' ''#''))) \<noteq>
     drop 1 (file_lines (''foo'' @ [NL] @ ''bar'' @ [NL])) \<and>
   unread_lines example_fs ''bar.exp''
     (snd (snd (compare_run re_match example_fs ''second.out'' ''bar.exp'' ''#''))) = [] \<and>
   unread_lines example_fs ''bar.exp''
     (snd (snd (compare_run re_match example_fs ''second.out'' ''bar.exp'' ''#''))) \<noteq>
     drop 1 (file_lines (''#bar'' @ [NL] @ ''#baz'' @ [NL]))"
proof -
  have a: "example_fs ''second.out'' = Some (''foo'' @ [NL] @ ''bar'' @ [NL])"
    and e: "example_fs ''bar.exp'' = Some (''#bar'' @ [NL] @ ''#baz'' @ [NL])"
    by (simp_all add: example_fs_def)
  show ?thesis
    by (simp add: compare_run_eq [where fs = example_fs, OF a e] startswith_def
        re_match_def sre_parse_def)
qed

subsection \<open>C9: the newline at the end of lines and patterns\<close>

text \<open>
  Claim C9, as amended. Lines are compared with their terminators. The actual lines are
  the file cut after each newline: they concatenate to the content, none is empty, a
  newline stands only at the end of a line, and every line but the last ends with one.
  The pattern of an annotated line is the rest of the line after the prefix, and it ends
  with the newline of the line when the prefix is not the whole line. For a pattern of the
  fragment that ends with a newline, a pair passes only if an alternative of the pattern
  before the last one matches, or the actual line ends with a newline and the last
  alternative matches the whole line, its newline included.
\<close>

theorem lines_and_patterns_keep_newlines:
  "concat (file_lines content) = content \<and>
   (\<forall>line \<in> set (file_lines content). line \<noteq> [] \<and> NL \<notin> set (butlast line)) \<and>
   (\<forall>line \<in> set (butlast (file_lines content)). last line = NL) \<and>
   (startswith line check_prefix \<longrightarrow>
      expected_lines [line] check_prefix = [drop (length check_prefix) line] \<and>
      line = check_prefix @ drop (length check_prefix) line \<and>
      (length check_prefix < length line \<and> last line = NL \<longrightarrow>
         last (drop (length check_prefix) line) = NL)) \<and>
   (sre_parse (body @ [NL]) = Inr branches \<and> actual_line \<in> set (file_lines content) \<and>
    re_match (body @ [NL]) actual_line = Inr True \<longrightarrow>
      (\<exists>items \<in> set (butlast branches). match_items items actual_line) \<or>
      (last actual_line = NL \<and> fullmatch (last branches) actual_line))"
proof -
  have lines: "\<forall>line \<in> set (file_lines content). line \<noteq> [] \<and> NL \<notin> set (butlast line)"
    using file_lines_nonempty file_lines_newline_last by blast
  have ended: "\<forall>line \<in> set (butlast (file_lines content)). last line = NL"
    using file_lines_terminated by blast
  have pat: "expected_lines [line] check_prefix = [drop (length check_prefix) line] \<and>
      line = check_prefix @ drop (length check_prefix) line \<and>
      (length check_prefix < length line \<and> last line = NL \<longrightarrow>
         last (drop (length check_prefix) line) = NL)"
    if "startswith line check_prefix"
  proof -
    from that have "line = check_prefix @ drop (length check_prefix) line"
      by (metis append_take_drop_id startswith_def)
    with that show ?thesis by auto
  qed
  have nl: "(\<exists>items \<in> set (butlast branches). match_items items actual_line) \<or>
      (last actual_line = NL \<and> fullmatch (last branches) actual_line)"
    if p: "sre_parse (body @ [NL]) = Inr branches"
      and l: "actual_line \<in> set (file_lines content)"
      and m: "re_match (body @ [NL]) actual_line = Inr True"
  proof -
    from sre_parse_trailing_NL [OF p] obtain its
      where ne: "branches \<noteq> []" and lb: "last branches = its @ [(LITERAL NL, Once)]"
      by blast
    from m p obtain items where i: "items \<in> set branches" "match_items items actual_line"
      by (auto simp: re_match_def list_ex_iff)
    show ?thesis
    proof (cases "items \<in> set (butlast branches)")
      case True
      with i show ?thesis by blast
    next
      case False
      with i(1) ne have "items = last branches"
        by (metis append_butlast_last_id set_ConsD rotate1.simps(2) set_rotate1)
      with i(2) lb l lines match_trailing_NL_whole_line [of its actual_line]
      show ?thesis by auto
    qed
  qed
  from lines ended pat nl show ?thesis
    by (simp add: file_lines_concat)
qed

theorem lines_and_patterns_keep_newlines_witness:
  "file_lines (''hello'' @ [NL] @ ''world'') = [''hello'' @ [NL], ''world''] \<and>
   expected_lines [''#hel+o'' @ [NL]] ''#'' = [''hel+o'' @ [NL]] \<and>
   fullmatch [(LITERAL CHR ''h'', Once), (LITERAL CHR ''e'', Once), (LITERAL CHR ''l'', Plus),
              (LITERAL CHR ''o'', Once), (LITERAL NL, Once)] (''hello'' @ [NL])"
proof -
  have s: "startswith (''#hel+o'' @ [NL]) ''#''"
    by (simp add: startswith_def)
  have p: "sre_parse (''hel+o'' @ [NL]) =
             Inr [[(LITERAL CHR ''h'', Once), (LITERAL CHR ''e'', Once), (LITERAL CHR ''l'', Plus),
                   (LITERAL CHR ''o'', Once), (LITERAL NL, Once)]]"
    by (simp add: sre_parse_def repeat_of_def)
  have l: "''hello'' @ [NL] \<in> set (file_lines (''hello'' @ [NL] @ ''world''))"
    by simp
  have m: "re_match (''hel+o'' @ [NL]) (''hello'' @ [NL]) = Inr True"
    by (simp add: re_match_def sre_parse_def repeat_of_def)
  from lines_and_patterns_keep_newlines
         [where content = "''hello'' @ [NL] @ ''world''" and line = "''#hel+o'' @ [NL]"
            and check_prefix = "''#''" and body = "''hel+o''"
            and actual_line = "''hello'' @ [NL]"
            and branches = "[[(LITERAL CHR ''h'', Once), (LITERAL CHR ''e'', Once),
                              (LITERAL CHR ''l'', Plus), (LITERAL CHR ''o'', Once),
                              (LITERAL NL, Once)]]"]
    s p l m
  show ?thesis by simp
qed

text \<open>
  The claim as stated fails for a pattern with alternatives: the annotated line \<^verbatim>\<open>#a|b\<close>
  ends with a newline, the actual line \<^verbatim>\<open>a\<close> (the unterminated last line of its file) has
  none, and the pair passes through the alternative \<^verbatim>\<open>a\<close>. And when the check prefix is the
  whole annotated line, newline included, the pattern is empty and retains no newline.
\<close>

theorem newline_not_needed_counterexample:
  "file_lines ''a'' = [''a''] \<and>
   expected_lines (file_lines (''#a|b'' @ [NL])) ''#'' = [''a|b'' @ [NL]] \<and>
   last (''a|b'' @ [NL]) = NL \<and>
   NL \<notin> set ''a'' \<and>
   re_match (''a|b'' @ [NL]) ''a'' = Inr True \<and>
   compare example_fs ''a.out'' ''alt.exp'' ''#'' = Inr () \<and>
   expected_lines (file_lines (''#'' @ [NL])) (''#'' @ [NL]) = [[]]"
proof -
  have a: "example_fs ''a.out'' = Some ''a''"
    and e: "example_fs ''alt.exp'' = Some (''#a|b'' @ [NL])"
    by (simp_all add: example_fs_def)
  show ?thesis
    by (simp add: compare_def compare_with_eq [where fs = example_fs, OF a e] startswith_def
        re_match_def sre_parse_def)
qed

subsection \<open>C10: the empty check prefix\<close>

text \<open>
  Claim C10. \<^verbatim>\<open>compare\<close> does not require the check prefix to be non-empty. With the empty
  prefix every line begins with the prefix and is a pattern, unchanged, so that the
  patterns are all the lines of the expectations file and \<^verbatim>\<open>compare\<close> walks the actual
  lines against them.
\<close>

theorem empty_check_prefix_selects_every_line:
  assumes "fs actual = Some ca" and "fs expected = Some ce"
  shows "startswith line [] \<and> expected_lines lines [] = lines \<and>
         compare_with m fs actual expected [] =
           compare_loop m (zip_longest (file_lines ca) (file_lines ce))"
proof -
  have "expected_lines ls [] = ls" for ls
    by (induction ls) (simp_all add: startswith_def)
  then show ?thesis
    by (simp add: compare_with_eq [OF assms] startswith_def)
qed

theorem empty_check_prefix_selects_every_line_witness:
  "compare example_fs ''pass.out'' ''plain.exp'' [] = Inr ()"
proof -
  have a: "example_fs ''pass.out'' = Some (''hello'' @ [NL] @ ''world'' @ [NL])"
    and e: "example_fs ''plain.exp'' = Some (''hel+o'' @ [NL] @ ''w.rld'' @ [NL])"
    by (simp_all add: example_fs_def)
  from empty_check_prefix_selects_every_line [where fs = example_fs and m = re_match, OF a e]
  show ?thesis
    by (simp add: compare_def re_match_def sre_parse_def repeat_of_def)
qed

end
